theory Spec2Isabelle
  imports Complex_Main "HOL-Library.Word"
begin

section \<open>Machine types and undefined behaviour\<close>

text \<open>
  The streaming core (\<^verbatim>\<open>stream_core.cpp\<close>) is C++ for a 64-bit target:
  \<^verbatim>\<open>size_t\<close> and \<^verbatim>\<open>uint64_t\<close> are 64-bit words, \<^verbatim>\<open>uint32_t\<close> is a 32-bit
  word, \<^verbatim>\<open>uint8_t\<close> is a byte. Word arithmetic wraps as the unsigned C++ arithmetic
  does.

  Operations whose behaviour C++ leaves undefined (a remainder by zero, a vector
  subscript out of range) are made explicit: the model returns an \<open>error\<close> there.
\<close>

type_synonym size_t = "64 word"
type_synonym uint64_t = "64 word"
type_synonym uint32_t = "32 word"
type_synonym uint8_t = "8 word"

datatype error = DivisionByZero | IndexOutOfRange

section \<open>ConcurrentRingBuffer\<close>

text \<open>
  \<^verbatim>\<open>ConcurrentRingBuffer<T>\<close> holds a vector of \<^verbatim>\<open>capacity_\<close> slots and two
  indices. Every member function takes the buffer's mutex for its whole body, so each
  call is one atomic step on the record below; a concurrent execution is some
  interleaving of such steps.

  The constructor fills the vector with \<^verbatim>\<open>capacity\<close> value-initialised elements;
  the model takes that default element as a parameter.

  The members \<^verbatim>\<open>buffer_\<close>, \<^verbatim>\<open>head_\<close>, \<^verbatim>\<open>tail_\<close> and \<^verbatim>\<open>capacity_\<close> lose their
  trailing underscore, which a name cannot end with here. The member functions
  \<^verbatim>\<open>push\<close>, \<^verbatim>\<open>pop\<close> and \<^verbatim>\<open>size\<close> are \<open>rb_push\<close>, \<open>rb_pop\<close> and \<open>rb_size\<close>:
  the task queue below has a \<^verbatim>\<open>push\<close> and a \<^verbatim>\<open>pop\<close> of its own.
\<close>

record 'a ConcurrentRingBuffer =
  buffer :: "'a list"
  head :: size_t
  tail :: size_t
  capacity :: size_t

definition ConcurrentRingBuffer_new :: "'a \<Rightarrow> size_t \<Rightarrow> 'a ConcurrentRingBuffer" where
  "ConcurrentRingBuffer_new dflt c =
     \<lparr>buffer = replicate (unat c) dflt, head = 0, tail = 0, capacity = c\<rparr>"

text \<open>
  \<^verbatim>\<open>bool push(T&& item)\<close>: the result is the returned flag and the buffer after
  the call.
\<close>

definition rb_push ::
  "'a \<Rightarrow> 'a ConcurrentRingBuffer \<Rightarrow> error + (bool \<times> 'a ConcurrentRingBuffer)" where
  "rb_push item r =
     (if capacity r = 0 then Inl DivisionByZero
      else
        let next_tail = (tail r + 1) mod capacity r in
        if next_tail = head r then Inr (False, r)
        else if \<not> unat (tail r) < length (buffer r) then Inl IndexOutOfRange
        else Inr (True, r\<lparr>buffer := (buffer r)[unat (tail r) := item], tail := next_tail\<rparr>))"

text \<open>
  \<^verbatim>\<open>bool pop(T& item)\<close>: the first argument is what the caller's variable held
  before the call; the result is the flag, the variable afterwards and the buffer. The
  slot that was moved from stays in the vector; it is not read again before a later
  \<^verbatim>\<open>push\<close> overwrites it.
\<close>

definition rb_pop ::
  "'a \<Rightarrow> 'a ConcurrentRingBuffer \<Rightarrow> error + (bool \<times> 'a \<times> 'a ConcurrentRingBuffer)" where
  "rb_pop item r =
     (if head r = tail r then Inr (False, item, r)
      else if \<not> unat (head r) < length (buffer r) then Inl IndexOutOfRange
      else if capacity r = 0 then Inl DivisionByZero
      else Inr (True, buffer r ! unat (head r), r\<lparr>head := (head r + 1) mod capacity r\<rparr>))"

text \<open>\<^verbatim>\<open>size_t size() const\<close>: the subtraction and the addition wrap modulo \<open>2^64\<close>.\<close>

definition rb_size :: "'a ConcurrentRingBuffer \<Rightarrow> error + size_t" where
  "rb_size r =
     (if capacity r = 0 then Inl DivisionByZero
      else Inr ((tail r - head r + capacity r) mod capacity r))"

text \<open>A sequence of calls on one buffer; it stops at the first undefined operation.\<close>

datatype 'a rb_op = Push 'a | Pop 'a

fun rb_step :: "'a rb_op \<Rightarrow> 'a ConcurrentRingBuffer \<Rightarrow> error + 'a ConcurrentRingBuffer" where
  "rb_step (Push x) r = (case rb_push x r of Inl e \<Rightarrow> Inl e | Inr (ok, r') \<Rightarrow> Inr r')"
| "rb_step (Pop v) r = (case rb_pop v r of Inl e \<Rightarrow> Inl e | Inr (ok, v', r') \<Rightarrow> Inr r')"

fun rb_run :: "'a rb_op list \<Rightarrow> 'a ConcurrentRingBuffer \<Rightarrow> error + 'a ConcurrentRingBuffer" where
  "rb_run [] r = Inr r"
| "rb_run (opn # ops) r = (case rb_step opn r of Inl e \<Rightarrow> Inl e | Inr r' \<Rightarrow> rb_run ops r')"

text \<open>
  The representation invariant of a buffer built by the constructor with a positive
  capacity. A \<^verbatim>\<open>std::vector\<close> cannot have more than \<open>2^63\<close> elements, so neither can
  \<^verbatim>\<open>capacity_\<close>.
\<close>

definition rb_inv :: "'a ConcurrentRingBuffer \<Rightarrow> bool" where
  "rb_inv r \<longleftrightarrow>
     0 < capacity r \<and> capacity r \<le> 2 ^ 63 \<and> head r < capacity r \<and> tail r < capacity r \<and>
     length (buffer r) = unat (capacity r)"

text \<open>
  The queue a buffer represents: the number of stored items, and the items from the
  oldest (at \<^verbatim>\<open>head_\<close>) to the newest (just before \<^verbatim>\<open>tail_\<close>).
\<close>

definition rb_count :: "'a ConcurrentRingBuffer \<Rightarrow> nat" where
  "rb_count r = (unat (tail r) + unat (capacity r) - unat (head r)) mod unat (capacity r)"

definition rb_contents :: "'a ConcurrentRingBuffer \<Rightarrow> 'a list" where
  "rb_contents r =
     map (\<lambda>i. buffer r ! ((unat (head r) + i) mod unat (capacity r))) [0..<rb_count r]"

section \<open>NetworkAwareScheduler\<close>

text \<open>
  The C++ \<^verbatim>\<open>double\<close> fields are modelled as real numbers: the arithmetic of the
  model is exact, so rounding, infinities and NaN are outside it. A value the model
  computes can differ from the binary64 value in the last place, and its integer part
  can then differ by one. The statements below about computed bitrates and chunk sizes
  are therefore bounds that do not depend on the computed value, or evaluations at
  inputs where the binary64 results are the same as the exact ones, or they are marked
  as statements about the exact arithmetic. Integer conversions of doubles are modelled
  separately below, with their range limits.
\<close>

record NetworkMetrics =
  bandwidth :: real
  latency :: real
  packet_loss :: real
  jitter :: real
  timestamp :: uint64_t

record NetworkAwareScheduler =
  metrics_buffer :: "NetworkMetrics ConcurrentRingBuffer"
  smoothed_bandwidth :: real
  smoothed_latency :: real

definition NetworkMetrics_zero :: NetworkMetrics where
  "NetworkMetrics_zero =
     \<lparr>bandwidth = 0, latency = 0, packet_loss = 0, jitter = 0, timestamp = 0\<rparr>"

definition NetworkAwareScheduler_new :: NetworkAwareScheduler where
  "NetworkAwareScheduler_new =
     \<lparr>metrics_buffer = ConcurrentRingBuffer_new NetworkMetrics_zero 100,
      smoothed_bandwidth = 0, smoothed_latency = 0\<rparr>"

definition update_metrics :: "NetworkMetrics \<Rightarrow> NetworkAwareScheduler \<Rightarrow> NetworkAwareScheduler" where
  "update_metrics metrics s =
     (let alpha = 0.2;
          current_bw = smoothed_bandwidth s;
          new_bw = alpha * bandwidth metrics + (1 - alpha) * current_bw;
          current_lat = smoothed_latency s;
          new_lat = alpha * latency metrics + (1 - alpha) * current_lat
      in s\<lparr>smoothed_bandwidth := new_bw, smoothed_latency := new_lat\<rparr>)"

text \<open>\<^verbatim>\<open>add_metrics_sample\<close> ignores the flag that \<^verbatim>\<open>push\<close> returns.\<close>

definition add_metrics_sample ::
  "NetworkMetrics \<Rightarrow> NetworkAwareScheduler \<Rightarrow> error + NetworkAwareScheduler" where
  "add_metrics_sample metrics s =
     (case rb_push metrics (metrics_buffer s) of
        Inl e \<Rightarrow> Inl e
      | Inr (ok, b) \<Rightarrow> Inr (update_metrics metrics (s\<lparr>metrics_buffer := b\<rparr>)))"

fun add_metrics_samples ::
  "NetworkMetrics list \<Rightarrow> NetworkAwareScheduler \<Rightarrow> error + NetworkAwareScheduler" where
  "add_metrics_samples [] s = Inr s"
| "add_metrics_samples (m # ms) s =
     (case add_metrics_sample m s of Inl e \<Rightarrow> Inl e | Inr s' \<Rightarrow> add_metrics_samples ms s')"

text \<open>
  \<^verbatim>\<open>static_cast<int>(x)\<close> and \<^verbatim>\<open>static_cast<size_t>(x)\<close> on a double discard the
  fractional part. When the truncated value does not fit the target type, C++ leaves
  the conversion undefined; compiled code then delivers some value of the target type
  (on x86-64, \<^verbatim>\<open>cvttsd2si\<close> delivers \<open>INT_MIN\<close>). The model takes that value from a
  parameter \<open>oor\<close>, so a statement proved for every \<open>oor\<close> holds whatever the
  platform delivers. A C++ \<^verbatim>\<open>int\<close> is an \<open>int\<close> between \<open>- 2^31\<close> and \<open>2^31 - 1\<close>.
\<close>

definition trunc_real :: "real \<Rightarrow> int" where
  "trunc_real x = (if 0 \<le> x then \<lfloor>x\<rfloor> else \<lceil>x\<rceil>)"

definition double_to_int :: "(real \<Rightarrow> 32 word) \<Rightarrow> real \<Rightarrow> int" where
  "double_to_int oor x =
     (if - (2 ^ 31) - 1 < x \<and> x < 2 ^ 31 then trunc_real x else sint (oor x))"

definition double_to_size_t :: "(real \<Rightarrow> size_t) \<Rightarrow> real \<Rightarrow> size_t" where
  "double_to_size_t oor x =
     (if - 1 < x \<and> x < 2 ^ 64 then word_of_int (trunc_real x) else oor x)"

definition calculate_optimal_bitrate :: "(real \<Rightarrow> 32 word) \<Rightarrow> NetworkAwareScheduler \<Rightarrow> int" where
  "calculate_optimal_bitrate oor s =
     (let available_bw = smoothed_bandwidth s;
          current_latency = smoothed_latency s;
          safety_factor = max 0.7 (1.0 - (current_latency / 100.0));
          optimal_bitrate = double_to_int oor (available_bw * 1000 * safety_factor * 0.8)
      in max 300 (min optimal_bitrate 20000))"

section \<open>QuantumStreamProtocol\<close>

subsection \<open>ChunkQuadTree\<close>

text \<open>
  The fields \<^verbatim>\<open>chunk_id\<close>, \<^verbatim>\<open>timestamp\<close> and \<^verbatim>\<open>size\<close> of a node carry the prefix
  \<open>node_\<close>: a packet has fields of the same names.
\<close>

record Node =
  node_chunk_id :: uint32_t
  node_timestamp :: uint64_t
  node_size :: uint32_t
  children :: "uint32_t list"
  is_leaf :: bool

record ChunkQuadTree =
  nodes :: "Node list"
  root_id :: uint32_t

definition ChunkQuadTree_new :: ChunkQuadTree where
  "ChunkQuadTree_new =
     \<lparr>nodes = [\<lparr>node_chunk_id = 0, node_timestamp = 0, node_size = 0, children = [],
                 is_leaf = False\<rparr>],
      root_id = 0\<rparr>"

definition insert_chunk ::
  "uint32_t \<Rightarrow> uint64_t \<Rightarrow> uint32_t \<Rightarrow> uint32_t list \<Rightarrow> ChunkQuadTree \<Rightarrow> ChunkQuadTree" where
  "insert_chunk chunk_id ts sz dependencies t =
     t\<lparr>nodes := nodes t @
        [\<lparr>node_chunk_id = chunk_id, node_timestamp = ts, node_size = sz,
          children = dependencies, is_leaf = (dependencies = [])\<rparr>]\<rparr>"

text \<open>A sequence of \<^verbatim>\<open>insert_chunk\<close> calls on a new tree.\<close>

fun insert_chunks ::
  "(uint32_t \<times> uint64_t \<times> uint32_t \<times> uint32_t list) list \<Rightarrow> ChunkQuadTree \<Rightarrow> ChunkQuadTree" where
  "insert_chunks [] t = t"
| "insert_chunks ((chunk_id, ts, sz, dependencies) # cs) t =
     insert_chunks cs (insert_chunk chunk_id ts sz dependencies t)"

text \<open>
  The recursive lambda \<^verbatim>\<open>dfs\<close> of \<^verbatim>\<open>get_optimal_chunk_sequence\<close>, run with its
  call stack made explicit. \<open>Visit n\<close> is a pending call \<^verbatim>\<open>dfs(n)\<close>; \<open>Emit n\<close> is the
  rest of the body of a call on \<open>n\<close> after its loop over the children. The captured
  variables \<^verbatim>\<open>visited\<close> and \<^verbatim>\<open>sequence\<close> are passed along. A node id is used
  directly as an index into \<^verbatim>\<open>visited\<close> and \<^verbatim>\<open>nodes_\<close>, without a range check.
\<close>

datatype frame = Visit uint32_t | Emit uint32_t

function dfs :: "Node list \<Rightarrow> frame list \<Rightarrow> bool list \<Rightarrow> uint32_t list \<Rightarrow> error + uint32_t list" where
  "dfs ns [] visited sequence = Inr sequence"
| "dfs ns (Visit node_id # stack) visited sequence =
     (if \<not> unat node_id < length visited then Inl IndexOutOfRange
      else if visited ! unat node_id then dfs ns stack visited sequence
      else if \<not> unat node_id < length ns then Inl IndexOutOfRange
      else dfs ns (map Visit (children (ns ! unat node_id)) @ Emit node_id # stack)
             (visited[unat node_id := True]) sequence)"
| "dfs ns (Emit node_id # stack) visited sequence =
     (if \<not> unat node_id < length ns then Inl IndexOutOfRange
      else if is_leaf (ns ! unat node_id)
        then dfs ns stack visited (sequence @ [node_chunk_id (ns ! unat node_id)])
        else dfs ns stack visited sequence)"
  by pat_completeness auto

termination dfs
proof (relation "measures [\<lambda>(ns, stack, visited, sequence). length (filter Not visited),
                           \<lambda>(ns, stack, visited, sequence). length stack]")
  have mark: "length (filter Not (vis[i := True])) < length (filter Not vis)"
    if "i < length vis" "\<not> vis ! i" for vis :: "bool list" and i
    using that
  proof (induction vis arbitrary: i)
    case Nil
    then show ?case by simp
  next
    case (Cons v vis)
    then show ?case by (cases i) auto
  qed
  fix ns :: "Node list" and node_id :: uint32_t and stack :: "frame list"
    and visited :: "bool list" and sequence :: "uint32_t list"
  assume "\<not> \<not> unat node_id < length visited" "\<not> visited ! unat node_id"
  then show "((ns, map Visit (children (ns ! unat node_id)) @ Emit node_id # stack,
               visited[unat node_id := True], sequence),
              ns, Visit node_id # stack, visited, sequence)
             \<in> measures [\<lambda>(ns, stack, visited, sequence). length (filter Not visited),
                           \<lambda>(ns, stack, visited, sequence). length stack]"
    using mark [of "unat node_id" visited] by simp
qed auto

definition get_optimal_chunk_sequence :: "uint32_t \<Rightarrow> ChunkQuadTree \<Rightarrow> error + uint32_t list" where
  "get_optimal_chunk_sequence target_bitrate t =
     dfs (nodes t) [Visit (root_id t)] (replicate (length (nodes t)) False) []"

subsection \<open>Packetization\<close>

record QuantumPacket =
  stream_id :: uint32_t
  chunk_id :: uint32_t
  sequence_number :: uint32_t
  timestamp :: uint64_t
  data :: "uint8_t list"
  priority :: uint8_t

record QuantumStreamProtocol =
  chunk_tree :: ChunkQuadTree
  scheduler :: NetworkAwareScheduler

definition calculate_optimal_chunk_size :: "(real \<Rightarrow> size_t) \<Rightarrow> QuantumStreamProtocol \<Rightarrow> size_t" where
  "calculate_optimal_chunk_size oor p =
     (let latency = smoothed_latency (scheduler p);
          bandwidth = smoothed_bandwidth (scheduler p);
          optimal_size_ms = max 100.0 (min 2000.0 (latency * 2));
          chunk_size = double_to_size_t oor ((bandwidth * 1000 * optimal_size_ms) / 8000)
      in max 1024 (min chunk_size 65536))"

definition calculate_chunk_priority :: "nat \<Rightarrow> nat \<Rightarrow> uint8_t" where
  "calculate_chunk_priority position total_size =
     (if position mod 100 = 0 then 255
      else if position mod 10 = 0 then 200
      else 100)"

text \<open>
  The loop of \<^verbatim>\<open>generate_packets\<close>. The byte offset \<^verbatim>\<open>i\<close> is a natural number:
  it stays below \<^verbatim>\<open>media_data.size() + chunk_size\<close>, which cannot reach \<open>2^64\<close> for a
  vector in memory and a chunk size of at most 65536. \<open>clock k\<close> is what
  \<^verbatim>\<open>get_current_timestamp()\<close> reads while packet \<open>k\<close> is built. With a chunk size
  of 0 the C++ loop would never advance; the model returns \<open>None\<close> for a call
  that does not return.
\<close>

function generate_packets_loop ::
  "(nat \<Rightarrow> uint64_t) \<Rightarrow> nat \<Rightarrow> uint8_t list \<Rightarrow> uint32_t \<Rightarrow> nat \<Rightarrow> QuantumPacket list \<Rightarrow>
   QuantumPacket list option" where
  "generate_packets_loop clock chunk_size media_data sid i packets =
     (if chunk_size = 0 then None
      else if i < length media_data then
        let end = min (i + chunk_size) (length media_data);
            chunk_data = take (end - i) (drop i media_data);
            packet = \<lparr>stream_id = sid,
                      chunk_id = of_nat (i div chunk_size),
                      sequence_number = of_nat (length packets),
                      timestamp = clock (length packets),
                      data = chunk_data,
                      priority = calculate_chunk_priority i (length media_data)\<rparr>
        in generate_packets_loop clock chunk_size media_data sid (i + chunk_size) (packets @ [packet])
      else Some packets)"
  by pat_completeness auto
termination
  by (relation "measure (\<lambda>(clock, chunk_size, media_data, sid, i, packets). length media_data - i)")
    auto

declare generate_packets_loop.simps [simp del]

definition generate_packets ::
  "(real \<Rightarrow> size_t) \<Rightarrow> (nat \<Rightarrow> uint64_t) \<Rightarrow> QuantumStreamProtocol \<Rightarrow> uint8_t list \<Rightarrow> uint32_t \<Rightarrow>
   QuantumPacket list option" where
  "generate_packets oor clock p media_data sid =
     (let chunk_size = calculate_optimal_chunk_size oor p
      in generate_packets_loop clock (unat chunk_size) media_data sid 0 [])"

definition QuantumStreamProtocol_new :: QuantumStreamProtocol where
  "QuantumStreamProtocol_new =
     \<lparr>chunk_tree = ChunkQuadTree_new, scheduler = NetworkAwareScheduler_new\<rparr>"

section \<open>QuantumIOCore\<close>

text \<open>
  A \<^verbatim>\<open>LockFreeMPSCQueue\<close> is a linked list of tasks behind a dummy node; the model
  keeps the tasks it holds, the oldest first. \<^verbatim>\<open>push\<close> links a node at the tail,
  \<^verbatim>\<open>pop\<close> returns the task after the dummy node, or \<^verbatim>\<open>nullptr\<close> (here \<open>None\<close>).
\<close>

type_synonym 'task LockFreeMPSCQueue = "'task list"

definition mpsc_push :: "'task \<Rightarrow> 'task LockFreeMPSCQueue \<Rightarrow> 'task LockFreeMPSCQueue" where
  "mpsc_push task q = q @ [task]"

definition mpsc_pop :: "'task LockFreeMPSCQueue \<Rightarrow> 'task option \<times> 'task LockFreeMPSCQueue" where
  "mpsc_pop q = (case q of [] \<Rightarrow> (None, q) | task # q' \<Rightarrow> (Some task, q'))"

definition size_approx :: "'task LockFreeMPSCQueue \<Rightarrow> size_t" where
  "size_approx q = 0"

record 'task QuantumIOCore =
  NUM_IO_THREADS :: nat
  task_queues :: "'task LockFreeMPSCQueue list"
  running :: bool

text \<open>The constructor, and the store to \<^verbatim>\<open>running_\<close> that opens the destructor.\<close>

definition QuantumIOCore_new :: "nat \<Rightarrow> 'task QuantumIOCore" where
  "QuantumIOCore_new num_threads =
     \<lparr>NUM_IO_THREADS = num_threads, task_queues = replicate num_threads [], running = True\<rparr>"

definition shutdown :: "'task QuantumIOCore \<Rightarrow> 'task QuantumIOCore" where
  "shutdown c = c\<lparr>running := False\<rparr>"

text \<open>
  \<^verbatim>\<open>get_optimal_queue\<close> draws \<^verbatim>\<open>q1\<close> and \<^verbatim>\<open>q2\<close> from a random generator; the
  model takes the two draws as arguments. The distribution ranges over
  \<open>0 .. NUM_IO_THREADS - 1\<close>.
\<close>

definition get_optimal_queue :: "nat \<Rightarrow> nat \<Rightarrow> 'task QuantumIOCore \<Rightarrow> error + nat" where
  "get_optimal_queue q1 q2 c =
     (if \<not> q1 < length (task_queues c) \<or> \<not> q2 < length (task_queues c) then Inl IndexOutOfRange
      else Inr (if size_approx (task_queues c ! q1) < size_approx (task_queues c ! q2)
                then q1 else q2))"

text \<open>\<^verbatim>\<open>void submit(F&& func)\<close>: nothing is returned, the result is the core afterwards.\<close>

definition submit :: "nat \<Rightarrow> nat \<Rightarrow> 'task \<Rightarrow> 'task QuantumIOCore \<Rightarrow> error + 'task QuantumIOCore" where
  "submit q1 q2 func c =
     (case get_optimal_queue q1 q2 c of
        Inl e \<Rightarrow> Inl e
      | Inr queue_idx \<Rightarrow>
          Inr (c\<lparr>task_queues :=
                 (task_queues c)[queue_idx := mpsc_push func (task_queues c ! queue_idx)]\<rparr>))"

section \<open>ProcessingPipeline\<close>

text \<open>
  A stage's \<^verbatim>\<open>buffer\<close> is the field \<open>stage_buffer\<close>, the ring buffer's vector being
  \<open>buffer\<close> already. A stage processor receives the frame by reference; here it
  returns the frame it leaves behind.
\<close>

record Stage =
  processor :: "uint8_t list \<Rightarrow> uint8_t list"
  stage_buffer :: "uint8_t list ConcurrentRingBuffer"

record ProcessingPipeline =
  stages :: "Stage list"

definition ProcessingPipeline_new :: ProcessingPipeline where
  "ProcessingPipeline_new = \<lparr>stages = []\<rparr>"

definition add_stage ::
  "size_t \<Rightarrow> (uint8_t list \<Rightarrow> uint8_t list) \<Rightarrow> ProcessingPipeline \<Rightarrow> ProcessingPipeline" where
  "add_stage buffer_size proc p =
     p\<lparr>stages := stages p @
        [\<lparr>processor = proc, stage_buffer = ConcurrentRingBuffer_new [] buffer_size\<rparr>]\<rparr>"

text \<open>
  \<^verbatim>\<open>void process(std::vector<uint8_t> data)\<close>: the flag returned by \<^verbatim>\<open>push\<close> is
  discarded and nothing is returned; the result is \<open>()\<close> and the pipeline afterwards.
\<close>

definition process :: "uint8_t list \<Rightarrow> ProcessingPipeline \<Rightarrow> error + (unit \<times> ProcessingPipeline)" where
  "process d p =
     (if stages p \<noteq> [] then
        (case rb_push d (stage_buffer (stages p ! 0)) of
           Inl e \<Rightarrow> Inl e
         | Inr (ok, b) \<Rightarrow> Inr ((), p\<lparr>stages := (stages p)[0 := (stages p ! 0)\<lparr>stage_buffer := b\<rparr>]\<rparr>))
      else Inr ((), p))"

text \<open>
  The video pipeline of \<^verbatim>\<open>QuantumMediaEngine\<close>. The three stage functions have
  empty bodies in the source (the second one computes a bitrate and passes it to an
  empty function), so each leaves the frame as it is.
\<close>

definition analyze_video_frame :: "uint8_t list \<Rightarrow> uint8_t list" where
  "analyze_video_frame fr = fr"

definition adaptive_video_processing :: "uint8_t list \<Rightarrow> uint8_t list" where
  "adaptive_video_processing fr = fr"

definition enhance_video_quality :: "uint8_t list \<Rightarrow> uint8_t list" where
  "enhance_video_quality fr = fr"

definition setup_video_pipeline :: "ProcessingPipeline \<Rightarrow> ProcessingPipeline" where
  "setup_video_pipeline p =
     add_stage 2 enhance_video_quality
       (add_stage 3 adaptive_video_processing
         (add_stage 5 analyze_video_frame p))"

text \<open>A sequence of \<^verbatim>\<open>process\<close> calls on one pipeline.\<close>

fun process_all :: "uint8_t list list \<Rightarrow> ProcessingPipeline \<Rightarrow> error + ProcessingPipeline" where
  "process_all [] p = Inr p"
| "process_all (d # ds) p =
     (case process d p of Inl e \<Rightarrow> Inl e | Inr (u, p') \<Rightarrow> process_all ds p')"

section \<open>Reference formulations\<close>

text \<open>
  The packets that the loop of \<^verbatim>\<open>generate_packets\<close> produces, in closed form:
  packet \<open>k\<close> carries the bytes from offset \<open>k * chunk_size\<close> on, at most
  \<open>chunk_size\<close> of them, and there are \<open>\<lceil>total_size / chunk_size\<rceil>\<close> packets. The
  proofs below show that the loop computes exactly this list.
\<close>

definition packet_at ::
  "(nat \<Rightarrow> uint64_t) \<Rightarrow> nat \<Rightarrow> uint8_t list \<Rightarrow> uint32_t \<Rightarrow> nat \<Rightarrow> QuantumPacket" where
  "packet_at clock chunk_size media_data sid k =
     \<lparr>stream_id = sid, chunk_id = of_nat k, sequence_number = of_nat k, timestamp = clock k,
      data = take chunk_size (drop (k * chunk_size) media_data),
      priority = calculate_chunk_priority (k * chunk_size) (length media_data)\<rparr>"

definition packet_count :: "nat \<Rightarrow> nat \<Rightarrow> nat" where
  "packet_count chunk_size total_size = (total_size + chunk_size - 1) div chunk_size"

text \<open>
  A bounded first-in-first-out queue as a list, the oldest item first: a push onto a
  queue that already holds \<open>bound\<close> items is refused, a pop from an empty queue
  leaves it empty. The ring buffer is compared with this queue.
\<close>

fun fifo_step :: "nat \<Rightarrow> 'a rb_op \<Rightarrow> 'a list \<Rightarrow> 'a list" where
  "fifo_step bound (Push x) q = (if length q < bound then q @ [x] else q)"
| "fifo_step bound (Pop v) q = tl q"

fun fifo_run :: "nat \<Rightarrow> 'a rb_op list \<Rightarrow> 'a list \<Rightarrow> 'a list" where
  "fifo_run bound [] q = q"
| "fifo_run bound (opn # ops) q = fifo_run bound ops (fifo_step bound opn q)"

text \<open>
  The formulas of the specification, in its own words, over real numbers:
  \<open>safety = max(0.7, 1 - latency/100)\<close>, \<open>bitrate = bandwidth_kbps * safety * 0.8\<close>,
  clamped to \<open>[300, 20000]\<close>; and \<open>chunk_duration_ms = clamp(latency*2, 100, 2000)\<close>,
  \<open>chunk_bytes = clamp(bandwidth_kbps * chunk_duration_ms / 8, 1024, 65536)\<close>. They are
  compared with what the code computes.
\<close>

definition clamp :: "real \<Rightarrow> real \<Rightarrow> real \<Rightarrow> real" where
  "clamp x lo hi = max lo (min x hi)"

definition spec_optimal_bitrate :: "real \<Rightarrow> real \<Rightarrow> real" where
  "spec_optimal_bitrate latency_ms bandwidth_kbps =
     (let safety = max 0.7 (1 - latency_ms / 100);
          bitrate = bandwidth_kbps * safety * 0.8
      in clamp bitrate 300 20000)"

definition spec_chunk_bytes :: "real \<Rightarrow> real \<Rightarrow> real" where
  "spec_chunk_bytes latency_ms bandwidth_kbps =
     (let chunk_duration_ms = clamp (latency_ms * 2) 100 2000
      in clamp (bandwidth_kbps * chunk_duration_ms / 8) 1024 65536)"

section \<open>Properties of the ring buffer\<close>

subsection \<open>Index arithmetic\<close>

lemma ring_count_cases:
  fixes h t c :: nat
  assumes "h < c" "t < c"
  shows "(t + c - h) mod c = (if h \<le> t then t - h else t + c - h)"
proof (cases "h \<le> t")
  case True
  then have "t + c - h = (t - h) + c" by simp
  then have "(t + c - h) mod c = (t - h) mod c" by simp
  with True assms show ?thesis by simp
next
  case False
  with assms show ?thesis by simp
qed

lemma ring_next_cases:
  fixes t c :: nat
  assumes "t < c"
  shows "Suc t mod c = (if Suc t = c then 0 else Suc t)"
proof (cases "Suc t = c")
  case True
  then show ?thesis by simp
next
  case False
  with assms have "Suc t < c" by simp
  with False show ?thesis by simp
qed

lemma ring_full_iff:
  fixes h t c :: nat
  assumes "h < c" "t < c"
  shows "(t + 1) mod c = h \<longleftrightarrow> (t + c - h) mod c = c - 1"
  using assms unfolding ring_count_cases [OF assms] Suc_eq_plus1 [symmetric] ring_next_cases [OF assms(2)]
  by (cases "h \<le> t"; cases "Suc t = c") auto

lemma ring_empty_iff:
  fixes h t c :: nat
  assumes "h < c" "t < c"
  shows "h = t \<longleftrightarrow> (t + c - h) mod c = 0"
  using assms unfolding ring_count_cases [OF assms]
  by (cases "h \<le> t") auto

lemma ring_count_push:
  fixes h t c :: nat
  assumes "h < c" "t < c" "(t + 1) mod c \<noteq> h"
  shows "((t + 1) mod c + c - h) mod c = (t + c - h) mod c + 1"
proof -
  define n where "n = (t + 1) mod c"
  have n_eq: "n = (if Suc t = c then 0 else Suc t)"
    using ring_next_cases [OF assms(2)] by (simp add: n_def)
  have n_lt: "n < c" using assms by (simp add: n_def)
  have "(n + c - h) mod c = (if h \<le> n then n - h else n + c - h)"
    using assms(1) n_lt by (rule ring_count_cases)
  moreover have "(t + c - h) mod c = (if h \<le> t then t - h else t + c - h)"
    using assms(1,2) by (rule ring_count_cases)
  moreover have "n \<noteq> h" using assms(3) by (simp add: n_def)
  ultimately have "(n + c - h) mod c = (t + c - h) mod c + 1"
    using assms(1,2) n_eq by (simp split: if_splits)
  then show ?thesis by (simp add: n_def)
qed

lemma ring_count_pop:
  fixes h t c :: nat
  assumes "h < c" "t < c" "h \<noteq> t"
  shows "(t + c - (h + 1) mod c) mod c = (t + c - h) mod c - 1"
proof -
  define n where "n = (h + 1) mod c"
  have n_eq: "n = (if Suc h = c then 0 else Suc h)"
    using ring_next_cases [OF assms(1)] by (simp add: n_def)
  have n_lt: "n < c" using assms by (simp add: n_def)
  have "(t + c - n) mod c = (if n \<le> t then t - n else t + c - n)"
    using n_lt assms(2) by (rule ring_count_cases)
  moreover have "(t + c - h) mod c = (if h \<le> t then t - h else t + c - h)"
    using assms(1,2) by (rule ring_count_cases)
  ultimately have "(t + c - n) mod c = (t + c - h) mod c - 1"
    using assms n_eq by (simp split: if_splits)
  then show ?thesis by (simp add: n_def)
qed

lemma ring_slot_last:
  fixes h t c :: nat
  assumes "h < c" "t < c"
  shows "(h + (t + c - h) mod c) mod c = t"
proof (cases "h \<le> t")
  case True
  with assms show ?thesis by (simp add: ring_count_cases)
next
  case False
  then have "h + (t + c - h) = t + c" using assms by simp
  with False assms show ?thesis by (simp add: ring_count_cases)
qed

lemma ring_slot_inj:
  fixes h t c i :: nat
  assumes "h < c" "t < c" "i < (t + c - h) mod c"
  shows "(h + i) mod c \<noteq> t"
proof (cases "h \<le> t")
  case True
  with assms have "h + i < t" by (simp add: ring_count_cases)
  with assms show ?thesis by simp
next
  case False
  with assms have i: "i < t + c - h" by (simp add: ring_count_cases)
  show ?thesis
  proof (cases "h + i < c")
    case True
    with False show ?thesis by simp
  next
    case False
    then have "h + i = (h + i - c) + c" by simp
    then have "(h + i) mod c = (h + i - c) mod c" by (metis mod_add_self2)
    moreover have "h + i - c < t" using i False by simp
    ultimately show ?thesis using assms by simp
  qed
qed

lemma ring_slot_shift:
  fixes h c i :: nat
  shows "(Suc h mod c + i) mod c = Suc (h + i) mod c"
proof -
  have "(Suc h mod c + i) mod c = (Suc h + i) mod c" by (rule mod_add_left_eq)
  then show ?thesis by simp
qed

lemma unat_next_index:
  fixes t c :: size_t
  assumes "t < c"
  shows "unat ((t + 1) mod c) = (unat t + 1) mod unat c"
proof -
  have "unat t < unat c" using assms by (simp add: word_less_nat_alt)
  moreover have "unat c < 2 ^ 64" using unsigned_less [of c] by simp
  ultimately have "unat t + unat (1 :: size_t) < 2 ^ LENGTH(64)" by simp
  then have "unat (t + 1) = unat t + unat (1 :: size_t)"
    by (simp only: unat_add_lem)
  then show ?thesis by (simp add: unat_mod)
qed

lemma unat_size_expr:
  fixes t h c :: size_t
  assumes "h < c" "t < c" "c \<le> 2 ^ 63"
  shows "unat ((t - h + c) mod c) = (unat t + unat c - unat h) mod unat c"
proof -
  have hc: "unat h < unat c" and tc: "unat t < unat c"
    using assms by (simp_all add: word_less_nat_alt)
  have "unat c \<le> unat (2 ^ 63 :: size_t)" using assms(3) by (simp only: word_le_nat_alt)
  then have c63: "unat c \<le> 2 ^ 63" by simp
  let ?n = "unat t + unat c - unat h"
  have n: "?n < 2 ^ 64" using hc tc c63 by simp
  have "(of_nat ?n :: size_t) = of_nat (unat t + unat c) - of_nat (unat h)"
    using hc by (simp add: of_nat_diff)
  then have "(of_nat ?n :: size_t) = t - h + c" by simp
  moreover have "unat (of_nat ?n :: size_t) = ?n" using n by (simp add: unat_of_nat take_bit_nat_eq_self)
  ultimately have "unat (t - h + c) = ?n" by simp
  then show ?thesis by (simp add: unat_mod)
qed

subsection \<open>Invariant and abstraction\<close>

lemma rb_inv_nat:
  assumes "rb_inv r"
  shows "unat (head r) < unat (capacity r)" "unat (tail r) < unat (capacity r)"
    "0 < unat (capacity r)" "length (buffer r) = unat (capacity r)"
  using assms by (simp_all add: rb_inv_def word_less_nat_alt)

lemma rb_inv_new:
  assumes "0 < c" "c \<le> 2 ^ 63"
  shows "rb_inv (ConcurrentRingBuffer_new d c)"
  using assms by (simp add: rb_inv_def ConcurrentRingBuffer_new_def)

lemma rb_contents_new: "rb_contents (ConcurrentRingBuffer_new d c) = []"
  by (simp add: rb_contents_def rb_count_def ConcurrentRingBuffer_new_def)

lemma rb_count_lt:
  assumes "rb_inv r"
  shows "rb_count r < unat (capacity r)"
  using rb_inv_nat(3) [OF assms] by (simp add: rb_count_def)

lemma length_rb_contents: "length (rb_contents r) = rb_count r"
  by (simp add: rb_contents_def)

lemma rb_size_count:
  assumes "rb_inv r"
  shows "\<exists>n. rb_size r = Inr n \<and> unat n = rb_count r"
proof -
  have "capacity r \<noteq> 0" using assms by (auto simp: rb_inv_def)
  moreover have "unat ((tail r - head r + capacity r) mod capacity r) = rb_count r"
    unfolding rb_count_def using assms by (intro unat_size_expr) (simp_all add: rb_inv_def)
  ultimately show ?thesis by (simp add: rb_size_def)
qed

lemma rb_next_tail_full:
  assumes "rb_inv r"
  shows "(tail r + 1) mod capacity r = head r \<longleftrightarrow> rb_count r = unat (capacity r) - 1"
proof -
  have "(tail r + 1) mod capacity r = head r \<longleftrightarrow>
        unat ((tail r + 1) mod capacity r) = unat (head r)"
    by (simp add: word_unat_eq_iff)
  also have "\<dots> \<longleftrightarrow> (unat (tail r) + 1) mod unat (capacity r) = unat (head r)"
    using assms by (simp add: unat_next_index rb_inv_def)
  also have "\<dots> \<longleftrightarrow> rb_count r = unat (capacity r) - 1"
    unfolding rb_count_def using rb_inv_nat(1,2) [OF assms] by (rule ring_full_iff)
  finally show ?thesis .
qed

lemma rb_head_tail_empty:
  assumes "rb_inv r"
  shows "head r = tail r \<longleftrightarrow> rb_count r = 0"
proof -
  have "head r = tail r \<longleftrightarrow> unat (head r) = unat (tail r)"
    by (simp add: word_unat_eq_iff)
  also have "\<dots> \<longleftrightarrow> rb_count r = 0"
    unfolding rb_count_def using rb_inv_nat(1,2) [OF assms] by (rule ring_empty_iff)
  finally show ?thesis .
qed

lemma rb_push_full:
  assumes "rb_inv r" "rb_count r = unat (capacity r) - 1"
  shows "rb_push x r = Inr (False, r)"
proof -
  have "capacity r \<noteq> 0" using assms by (auto simp: rb_inv_def)
  moreover have "(tail r + 1) mod capacity r = head r"
    using assms by (simp add: rb_next_tail_full)
  ultimately show ?thesis by (simp add: rb_push_def)
qed

lemma rb_push_room:
  assumes "rb_inv r" "rb_count r \<noteq> unat (capacity r) - 1"
  shows "\<exists>r'. rb_push x r = Inr (True, r') \<and> rb_inv r' \<and>
           rb_contents r' = rb_contents r @ [x] \<and> capacity r' = capacity r"
proof -
  let ?h = "unat (head r)" and ?t = "unat (tail r)" and ?c = "unat (capacity r)"
  let ?nt = "(tail r + 1) mod capacity r"
  define r' where "r' = r\<lparr>buffer := (buffer r)[?t := x], tail := ?nt\<rparr>"
  note nat = rb_inv_nat [OF assms(1)]
  have c0: "capacity r \<noteq> 0" and cpos: "0 < capacity r" using assms by (auto simp: rb_inv_def)
  have nfull: "?nt \<noteq> head r" using assms by (simp add: rb_next_tail_full)
  have push: "rb_push x r = Inr (True, r')"
    using c0 nfull nat by (simp add: rb_push_def r'_def Let_def)
  have nt_lt: "?nt < capacity r" using cpos by (simp add: word_mod_less_divisor)
  have inv': "rb_inv r'"
    using assms(1) nt_lt by (simp add: rb_inv_def r'_def)
  have unt: "unat ?nt = (?t + 1) mod ?c"
    using assms(1) by (simp add: unat_next_index rb_inv_def)
  have nfull_nat: "(?t + 1) mod ?c \<noteq> ?h"
    using nfull unt by (metis word_unat_eq_iff)
  have cnt: "rb_count r' = rb_count r + 1"
    unfolding rb_count_def using ring_count_push [OF nat(1,2) nfull_nat]
    by (simp add: r'_def unt)
  have old: "buffer r' ! ((?h + i) mod ?c) = buffer r ! ((?h + i) mod ?c)" if "i < rb_count r" for i
  proof -
    have "(?h + i) mod ?c \<noteq> ?t"
      using that unfolding rb_count_def by (rule ring_slot_inj [OF nat(1,2)])
    then show ?thesis by (simp add: r'_def)
  qed
  have new: "buffer r' ! ((?h + rb_count r) mod ?c) = x"
  proof -
    have "(?h + rb_count r) mod ?c = ?t"
      unfolding rb_count_def by (rule ring_slot_last [OF nat(1,2)])
    then show ?thesis using nat by (simp add: r'_def)
  qed
  have "rb_contents r' = map (\<lambda>i. buffer r' ! ((?h + i) mod ?c)) [0..<rb_count r + 1]"
    by (simp add: rb_contents_def cnt) (simp add: r'_def)
  also have "\<dots> = map (\<lambda>i. buffer r' ! ((?h + i) mod ?c)) [0..<rb_count r] @ [x]"
    using new by simp
  also have "map (\<lambda>i. buffer r' ! ((?h + i) mod ?c)) [0..<rb_count r] = rb_contents r"
    unfolding rb_contents_def using old by (intro map_cong) simp_all
  finally have "rb_contents r' = rb_contents r @ [x]" .
  moreover have "capacity r' = capacity r" by (simp add: r'_def)
  ultimately show ?thesis using push inv' by blast
qed

lemma rb_pop_empty:
  assumes "rb_inv r" "rb_count r = 0"
  shows "rb_pop v r = Inr (False, v, r)"
  using assms by (simp add: rb_pop_def rb_head_tail_empty)

lemma rb_pop_nonempty:
  assumes "rb_inv r" "rb_count r \<noteq> 0"
  shows "\<exists>r'. rb_pop v r = Inr (True, hd (rb_contents r), r') \<and> rb_inv r' \<and>
           rb_contents r' = tl (rb_contents r) \<and> capacity r' = capacity r"
proof -
  let ?h = "unat (head r)" and ?t = "unat (tail r)" and ?c = "unat (capacity r)"
  let ?nh = "(head r + 1) mod capacity r"
  define r' where "r' = r\<lparr>head := ?nh\<rparr>"
  note nat = rb_inv_nat [OF assms(1)]
  have c0: "capacity r \<noteq> 0" and cpos: "0 < capacity r" using assms by (auto simp: rb_inv_def)
  have ne: "head r \<noteq> tail r" using assms by (simp add: rb_head_tail_empty)
  have hd_eq: "hd (rb_contents r) = buffer r ! ?h"
  proof -
    have "[0..<rb_count r] = 0 # [1..<rb_count r]"
      using assms(2) by (simp add: upt_conv_Cons)
    then show ?thesis using nat by (simp add: rb_contents_def)
  qed
  have pop: "rb_pop v r = Inr (True, hd (rb_contents r), r')"
    using c0 ne nat by (simp add: rb_pop_def r'_def hd_eq)
  have nh_lt: "?nh < capacity r" using cpos by (simp add: word_mod_less_divisor)
  have inv': "rb_inv r'"
    using assms(1) nh_lt by (simp add: rb_inv_def r'_def)
  have unh: "unat ?nh = (?h + 1) mod ?c"
    using assms(1) by (simp add: unat_next_index rb_inv_def)
  have ne_nat: "?h \<noteq> ?t" using ne by (metis word_unat_eq_iff)
  have cnt: "rb_count r' = rb_count r - 1"
    unfolding rb_count_def using ring_count_pop [OF nat(1,2) ne_nat]
    by (simp add: r'_def unh)
  have "rb_contents r' = map (\<lambda>i. buffer r ! ((?h + Suc i) mod ?c)) [0..<rb_count r - 1]"
    unfolding rb_contents_def cnt by (simp add: r'_def unh ring_slot_shift)
  also have "\<dots> = map (\<lambda>i. buffer r ! ((?h + i) mod ?c)) (map Suc [0..<rb_count r - 1])"
    by (simp add: comp_def)
  also have "map Suc [0..<rb_count r - 1] = [1..<rb_count r]"
    using assms(2) by (simp add: map_Suc_upt)
  also have "map (\<lambda>i. buffer r ! ((?h + i) mod ?c)) [1..<rb_count r] = tl (rb_contents r)"
    using assms(2) by (simp add: rb_contents_def upt_conv_Cons)
  finally have "rb_contents r' = tl (rb_contents r)" .
  moreover have "capacity r' = capacity r" by (simp add: r'_def)
  ultimately show ?thesis using pop inv' by blast
qed

subsection \<open>Sequences of calls\<close>

lemma rb_push_inv:
  assumes "rb_inv r"
  shows "\<exists>ok r'. rb_push x r = Inr (ok, r') \<and> rb_inv r' \<and> capacity r' = capacity r"
proof (cases "rb_count r = unat (capacity r) - 1")
  case True
  with assms show ?thesis by (auto simp: rb_push_full)
next
  case False
  with assms rb_push_room [of r x] show ?thesis by blast
qed

lemma rb_pop_inv:
  assumes "rb_inv r"
  shows "\<exists>ok v' r'. rb_pop v r = Inr (ok, v', r') \<and> rb_inv r' \<and> capacity r' = capacity r"
proof (cases "rb_count r = 0")
  case True
  with assms show ?thesis by (auto simp: rb_pop_empty)
next
  case False
  with assms rb_pop_nonempty [of r v] show ?thesis by blast
qed

lemma rb_size_le:
  assumes "rb_inv r"
  shows "\<exists>n. rb_size r = Inr n \<and> unat n = length (rb_contents r) \<and> n \<le> capacity r - 1"
proof -
  from rb_size_count [OF assms] obtain n where n: "rb_size r = Inr n" "unat n = rb_count r"
    by blast
  have "0 < capacity r" using assms by (simp add: rb_inv_def)
  then have "1 \<le> capacity r" by (simp add: word_le_nat_alt word_less_nat_alt)
  then have "unat (capacity r - 1) = unat (capacity r) - 1" by (simp add: unat_sub)
  moreover have "rb_count r \<le> unat (capacity r) - 1" using rb_count_lt [OF assms] by simp
  ultimately have "n \<le> capacity r - 1" using n(2) by (simp add: word_le_nat_alt)
  with n show ?thesis by (simp add: length_rb_contents)
qed

lemma rb_push_False_iff:
  assumes "rb_inv r" "rb_size r = Inr n"
  shows "(\<exists>r'. rb_push x r = Inr (False, r')) \<longleftrightarrow> n = capacity r - 1"
proof -
  from rb_size_count [OF assms(1)] assms(2) have n: "unat n = rb_count r" by simp
  have "0 < capacity r" using assms by (simp add: rb_inv_def)
  then have "1 \<le> capacity r" by (simp add: word_le_nat_alt word_less_nat_alt)
  then have "unat (capacity r - 1) = unat (capacity r) - 1" by (simp add: unat_sub)
  then have eq: "n = capacity r - 1 \<longleftrightarrow> rb_count r = unat (capacity r) - 1"
    using n by (metis word_unat_eq_iff)
  show ?thesis
  proof (cases "rb_count r = unat (capacity r) - 1")
    case True
    with assms(1) eq show ?thesis by (simp add: rb_push_full)
  next
    case False
    with rb_push_room [OF assms(1), of x] eq show ?thesis by auto
  qed
qed

lemma metrics_buffer_new:
  "rb_inv (metrics_buffer NetworkAwareScheduler_new)"
  "capacity (metrics_buffer NetworkAwareScheduler_new) = 100"
  by (simp_all add: NetworkAwareScheduler_new_def rb_inv_new) (simp add: ConcurrentRingBuffer_new_def)

lemma rb_step_fifo:
  assumes "rb_inv r"
  shows "\<exists>r'. rb_step opn r = Inr r' \<and> rb_inv r' \<and> capacity r' = capacity r \<and>
           rb_contents r' = fifo_step (unat (capacity r) - 1) opn (rb_contents r)"
proof (cases opn)
  case (Push x)
  show ?thesis
  proof (cases "rb_count r = unat (capacity r) - 1")
    case True
    with assms Push show ?thesis by (simp add: rb_push_full length_rb_contents)
  next
    case False
    with rb_count_lt [OF assms] have "rb_count r < unat (capacity r) - 1" by simp
    with rb_push_room [OF assms False, of x] Push show ?thesis
      by (auto simp: length_rb_contents)
  qed
next
  case (Pop v)
  show ?thesis
  proof (cases "rb_count r = 0")
    case True
    then have "rb_contents r = []" using length_rb_contents [of r] by simp
    with assms True Pop show ?thesis by (simp add: rb_pop_empty)
  next
    case False
    with rb_pop_nonempty [OF assms False, of v] Pop show ?thesis by auto
  qed
qed

lemma rb_run_fifo:
  assumes "rb_inv r"
  shows "\<exists>r'. rb_run ops r = Inr r' \<and> rb_inv r' \<and> capacity r' = capacity r \<and>
           rb_contents r' = fifo_run (unat (capacity r) - 1) ops (rb_contents r)"
  using assms
proof (induction ops arbitrary: r)
  case Nil
  then show ?case by simp
next
  case (Cons opn ops)
  from rb_step_fifo [OF Cons.prems, of opn] obtain r1
    where s: "rb_step opn r = Inr r1" and i: "rb_inv r1" and c: "capacity r1 = capacity r"
      and q: "rb_contents r1 = fifo_step (unat (capacity r) - 1) opn (rb_contents r)"
    by blast
  from Cons.IH [OF i] obtain r' where "rb_run ops r1 = Inr r'" "rb_inv r'"
    "capacity r' = capacity r1"
    "rb_contents r' = fifo_run (unat (capacity r1) - 1) ops (rb_contents r1)"
    by blast
  with s c q show ?case by simp
qed

lemma add_metrics_samples_run:
  assumes "rb_inv (metrics_buffer s)"
  shows "\<exists>s'. add_metrics_samples ms s = Inr s' \<and>
           rb_run (map Push ms) (metrics_buffer s) = Inr (metrics_buffer s')"
  using assms
proof (induction ms arbitrary: s)
  case Nil
  then show ?case by simp
next
  case (Cons m ms)
  from rb_push_inv [OF Cons.prems, of m] obtain ok b
    where p: "rb_push m (metrics_buffer s) = Inr (ok, b)" and b: "rb_inv b"
    by blast
  let ?s1 = "update_metrics m (s\<lparr>metrics_buffer := b\<rparr>)"
  have s1: "add_metrics_sample m s = Inr ?s1" by (simp add: add_metrics_sample_def p)
  have mb: "metrics_buffer ?s1 = b" by (simp add: update_metrics_def Let_def)
  with b have "rb_inv (metrics_buffer ?s1)" by simp
  from Cons.IH [OF this] obtain s' where "add_metrics_samples ms ?s1 = Inr s'"
    "rb_run (map Push ms) (metrics_buffer ?s1) = Inr (metrics_buffer s')"
    by blast
  with s1 mb p show ?case by simp
qed

lemma fifo_run_pushes:
  assumes "length q \<le> bound"
  shows "fifo_run bound (map Push xs) q = q @ take (bound - length q) xs"
  using assms
proof (induction xs arbitrary: q)
  case Nil
  then show ?case by simp
next
  case (Cons x xs)
  show ?case
  proof (cases "length q < bound")
    case True
    then have "length (q @ [x]) \<le> bound" by simp
    from Cons.IH [OF this] True show ?thesis
      by (simp add: Suc_diff_Suc take_Cons')
  next
    case False
    with Cons.prems have "length q = bound" by simp
    with Cons.IH [OF Cons.prems] show ?thesis by simp
  qed
qed

text \<open>
  Claim C10. A ring buffer constructed with capacity \<open>C\<close> (positive, and at most
  \<open>2^63\<close> as for every vector) stores at most \<open>C - 1\<close> items: after any sequence
  of calls it holds the items of a first-in-first-out queue bounded by \<open>C - 1\<close>,
  \<^verbatim>\<open>size()\<close> is the number of these items and is at most \<open>C - 1\<close>, and \<^verbatim>\<open>push\<close>
  returns false exactly when \<open>C - 1\<close> items are stored. The scheduler's history
  buffer of 100 slots therefore never holds more than 99 samples: whatever samples are
  recorded, it keeps the first 99 of them.
\<close>

theorem ring_buffer_stores_at_most_capacity_minus_one:
  "(0 < C \<and> C \<le> 2 ^ 63 \<longrightarrow>
      (\<exists>r n. rb_run ops (ConcurrentRingBuffer_new dflt C) = Inr r \<and>
         rb_contents r = fifo_run (unat C - 1) ops [] \<and>
         rb_size r = Inr n \<and> unat n = length (rb_contents r) \<and> n \<le> C - 1 \<and>
         (\<forall>x. (\<exists>r'. rb_push x r = Inr (False, r')) \<longleftrightarrow> n = C - 1))) \<and>
   (\<exists>s n. add_metrics_samples samples NetworkAwareScheduler_new = Inr s \<and>
      rb_contents (metrics_buffer s) = take 99 samples \<and>
      rb_size (metrics_buffer s) = Inr n \<and> unat n = min 99 (length samples) \<and> n \<le> 99)"
proof (intro conjI impI)
  assume C: "0 < C \<and> C \<le> 2 ^ 63"
  then have "rb_inv (ConcurrentRingBuffer_new dflt C)" by (simp add: rb_inv_new)
  from rb_run_fifo [OF this, of ops] obtain r
    where r: "rb_run ops (ConcurrentRingBuffer_new dflt C) = Inr r" "rb_inv r"
      and "capacity r = capacity (ConcurrentRingBuffer_new dflt C)"
      and "rb_contents r =
        fifo_run (unat (capacity (ConcurrentRingBuffer_new dflt C)) - 1) ops
          (rb_contents (ConcurrentRingBuffer_new dflt C))"
    by blast
  then have c: "capacity r = C" and q: "rb_contents r = fifo_run (unat C - 1) ops []"
    by (simp_all add: rb_contents_new) (simp_all add: ConcurrentRingBuffer_new_def)
  from rb_size_le [OF r(2)] obtain n
    where n: "rb_size r = Inr n" "unat n = length (rb_contents r)" "n \<le> capacity r - 1"
    by blast
  have "\<forall>x. (\<exists>r'. rb_push x r = Inr (False, r')) \<longleftrightarrow> n = C - 1"
    using rb_push_False_iff [OF r(2) n(1)] c by simp
  with r(1) q n c
  show "\<exists>r n. rb_run ops (ConcurrentRingBuffer_new dflt C) = Inr r \<and>
         rb_contents r = fifo_run (unat C - 1) ops [] \<and>
         rb_size r = Inr n \<and> unat n = length (rb_contents r) \<and> n \<le> C - 1 \<and>
         (\<forall>x. (\<exists>r'. rb_push x r = Inr (False, r')) \<longleftrightarrow> n = C - 1)"
    by auto
next
  let ?b0 = "metrics_buffer NetworkAwareScheduler_new"
  from add_metrics_samples_run [OF metrics_buffer_new(1), of samples] obtain s
    where s: "add_metrics_samples samples NetworkAwareScheduler_new = Inr s"
      and run: "rb_run (map Push samples) ?b0 = Inr (metrics_buffer s)"
    by blast
  from rb_run_fifo [OF metrics_buffer_new(1), of "map Push samples"] run
  have inv: "rb_inv (metrics_buffer s)"
    and c: "capacity (metrics_buffer s) = 100"
    and "rb_contents (metrics_buffer s) =
      fifo_run (unat (capacity ?b0) - 1) (map Push samples) (rb_contents ?b0)"
    by (auto simp: metrics_buffer_new(2))
  moreover have "rb_contents ?b0 = []"
    by (simp add: NetworkAwareScheduler_new_def rb_contents_new)
  ultimately have q: "rb_contents (metrics_buffer s) = take 99 samples"
    by (simp add: metrics_buffer_new(2) fifo_run_pushes)
  from rb_size_le [OF inv] obtain n
    where n: "rb_size (metrics_buffer s) = Inr n"
      "unat n = length (rb_contents (metrics_buffer s))"
      "n \<le> capacity (metrics_buffer s) - 1"
    by blast
  from n(2) q have "unat n = min 99 (length samples)" by (simp add: min.commute)
  with s q n c
  show "\<exists>s n. add_metrics_samples samples NetworkAwareScheduler_new = Inr s \<and>
      rb_contents (metrics_buffer s) = take 99 samples \<and>
      rb_size (metrics_buffer s) = Inr n \<and> unat n = min 99 (length samples) \<and> n \<le> 99"
    by auto
qed

theorem ring_buffer_stores_at_most_capacity_minus_one_witness:
  "\<exists>r n. rb_run [Push (7::nat), Push 8, Push 9, Pop 0, Push 10] (ConcurrentRingBuffer_new 0 3) = Inr r \<and>
     rb_contents r = [8, 10] \<and>
     rb_size r = Inr n \<and> unat n = length (rb_contents r) \<and> n \<le> 3 - 1 \<and>
     (\<forall>x. (\<exists>r'. rb_push x r = Inr (False, r')) \<longleftrightarrow> n = 3 - 1)"
  using ring_buffer_stores_at_most_capacity_minus_one
    [of 3 "[Push (7::nat), Push 8, Push 9, Pop 0, Push 10]" 0 "[]"]
  by simp

subsection \<open>Size bound and first-in-first-out order\<close>

text \<open>
  As claim C7 states it, a pop that immediately follows a successful push returns the
  pushed item. On a buffer that already holds an item this fails: after \<open>push 1\<close>,
  the call \<open>push 2\<close> succeeds and the next \<open>pop\<close> returns 1.
\<close>

theorem pop_after_push_counterexample:
  "rb_run [Push (1::nat)] (ConcurrentRingBuffer_new 0 3) =
     Inr \<lparr>buffer = [1, 0, 0], head = 0, tail = 1, capacity = 3\<rparr> \<and>
   rb_push 2 \<lparr>buffer = [1::nat, 0, 0], head = 0, tail = 1, capacity = 3\<rparr> =
     Inr (True, \<lparr>buffer = [1, 2, 0], head = 0, tail = 2, capacity = 3\<rparr>) \<and>
   rb_pop 0 \<lparr>buffer = [1::nat, 2, 0], head = 0, tail = 2, capacity = 3\<rparr> =
     Inr (True, 1, \<lparr>buffer = [1, 2, 0], head = 1, tail = 2, capacity = 3\<rparr>)"
  by code_simp

text \<open>
  Claim C7, amended. For a buffer of capacity \<open>C\<close> (positive, at most \<open>2^63\<close>) and
  every sequence of push and pop calls, the buffer holds the items of the bounded
  first-in-first-out queue and \<^verbatim>\<open>size()\<close> never exceeds the capacity (it is
  unsigned, so never negative); and a pop immediately following a successful push
  succeeds and returns the oldest item stored: the pushed item when the buffer was
  empty before the push, otherwise the item that was already first in the queue.
\<close>

theorem ring_buffer_size_bound_and_fifo:
  assumes "0 < C" "C \<le> 2 ^ 63"
  shows "\<exists>r n. rb_run ops (ConcurrentRingBuffer_new dflt C) = Inr r \<and>
           rb_contents r = fifo_run (unat C - 1) ops [] \<and>
           rb_size r = Inr n \<and> n \<le> C \<and>
           (\<forall>x r' v. rb_push x r = Inr (True, r') \<longrightarrow>
              (\<exists>r''. rb_pop v r' = Inr (True, hd (rb_contents r @ [x]), r'')))"
proof -
  have "rb_inv (ConcurrentRingBuffer_new dflt C)" using assms by (simp add: rb_inv_new)
  from rb_run_fifo [OF this, of ops] obtain r
    where r: "rb_run ops (ConcurrentRingBuffer_new dflt C) = Inr r" "rb_inv r"
      and "capacity r = capacity (ConcurrentRingBuffer_new dflt C)"
      and "rb_contents r =
        fifo_run (unat (capacity (ConcurrentRingBuffer_new dflt C)) - 1) ops
          (rb_contents (ConcurrentRingBuffer_new dflt C))"
    by blast
  then have c: "capacity r = C" and q: "rb_contents r = fifo_run (unat C - 1) ops []"
    by (simp_all add: rb_contents_new) (simp_all add: ConcurrentRingBuffer_new_def)
  from rb_size_le [OF r(2)] obtain n
    where n: "rb_size r = Inr n" "n \<le> capacity r - 1"
    by blast
  have "capacity r - 1 \<le> capacity r"
    using assms(1) c by (simp add: word_le_nat_alt word_less_nat_alt unat_sub)
  with n(2) c have nC: "n \<le> C" by simp
  have fifo: "\<exists>r''. rb_pop v r' = Inr (True, hd (rb_contents r @ [x]), r'')"
    if push: "rb_push x r = Inr (True, r')" for x r' v
  proof -
    have "rb_count r \<noteq> unat (capacity r) - 1"
      using push rb_push_full [OF r(2), of x] by auto
    from rb_push_room [OF r(2) this, of x] push
    have r': "rb_inv r'" "rb_contents r' = rb_contents r @ [x]" by auto
    then have "rb_count r' \<noteq> 0" using length_rb_contents [of r'] by auto
    from rb_pop_nonempty [OF r'(1) this, of v] obtain r''
      where "rb_pop v r' = Inr (True, hd (rb_contents r'), r'')" by blast
    then show ?thesis by (auto simp: r'(2))
  qed
  from r(1) q n(1) nC fifo show ?thesis by blast
qed

theorem ring_buffer_size_bound_and_fifo_witness:
  "(0::size_t) < 3 \<and> (3::size_t) \<le> 2 ^ 63 \<and>
   rb_run [Push (1::nat), Pop 0] (ConcurrentRingBuffer_new 0 3) =
     Inr \<lparr>buffer = [1, 0, 0], head = 1, tail = 1, capacity = 3\<rparr> \<and>
   rb_size \<lparr>buffer = [1::nat, 0, 0], head = 1, tail = 1, capacity = 3\<rparr> = Inr 0 \<and>
   rb_contents \<lparr>buffer = [1::nat, 0, 0], head = 1, tail = 1, capacity = 3\<rparr> = [] \<and>
   rb_push 5 \<lparr>buffer = [1::nat, 0, 0], head = 1, tail = 1, capacity = 3\<rparr> =
     Inr (True, \<lparr>buffer = [1, 5, 0], head = 1, tail = 2, capacity = 3\<rparr>) \<and>
   (\<exists>r''. rb_pop 0 \<lparr>buffer = [1::nat, 5, 0], head = 1, tail = 2, capacity = 3\<rparr> =
      Inr (True, 5, r''))"
proof -
  let ?r0 = "\<lparr>buffer = [1::nat, 0, 0], head = 1, tail = 1, capacity = 3\<rparr>"
  let ?r1 = "\<lparr>buffer = [1::nat, 5, 0], head = 1, tail = 2, capacity = 3\<rparr>"
  have h: "(0::size_t) < 3" "(3::size_t) \<le> 2 ^ 63" by simp_all
  have run: "rb_run [Push (1::nat), Pop 0] (ConcurrentRingBuffer_new 0 3) = Inr ?r0"
    by code_simp
  have sz: "rb_size ?r0 = Inr 0" by code_simp
  have cont: "rb_contents ?r0 = []" by code_simp
  have push: "rb_push 5 ?r0 = Inr (True, ?r1)" by code_simp
  from ring_buffer_size_bound_and_fifo [OF h, of "[Push (1::nat), Pop 0]" 0] obtain r
    where "rb_run [Push (1::nat), Pop 0] (ConcurrentRingBuffer_new 0 3) = Inr r"
      and fifo: "\<forall>x r' v. rb_push x r = Inr (True, r') \<longrightarrow>
          (\<exists>r''. rb_pop v r' = Inr (True, hd (rb_contents r @ [x]), r''))"
    by blast
  with run have "r = ?r0" by simp
  with push fifo have "\<exists>r''. rb_pop 0 ?r1 = Inr (True, hd (rb_contents ?r0 @ [5]), r'')"
    by blast
  then have "\<exists>r''. rb_pop 0 ?r1 = Inr (True, 5, r'')" unfolding cont by simp
  with h run sz cont push show ?thesis by blast
qed

section \<open>Properties of the task-distribution core\<close>

lemma get_optimal_queue_second:
  assumes "q1 < length (task_queues c)" "q2 < length (task_queues c)"
  shows "get_optimal_queue q1 q2 c = Inr q2"
  using assms by (simp add: get_optimal_queue_def size_approx_def)

lemma submit_enqueues:
  assumes "q1 < length (task_queues c)" "q2 < length (task_queues c)"
  shows "submit q1 q2 func c =
           Inr (c\<lparr>task_queues := (task_queues c)[q2 := task_queues c ! q2 @ [func]]\<rparr>)"
  using assms by (simp add: submit_def get_optimal_queue_second mpsc_push_def)

text \<open>
  Claim C9. \<^verbatim>\<open>size_approx()\<close> is 0 for every queue, whatever it holds. So
  \<^verbatim>\<open>get_optimal_queue\<close> never finds the first sampled queue less loaded: it returns
  the second draw, whatever the first draw and the queues' contents are, and
  \<^verbatim>\<open>submit\<close> places the task on that queue.
\<close>

theorem size_approx_zero_second_draw_wins:
  "size_approx q = 0 \<and>
   (q1 < length (task_queues c) \<and> q2 < length (task_queues c) \<longrightarrow>
      size_approx (task_queues c ! q1) = size_approx (task_queues c ! q2) \<and>
      get_optimal_queue q1 q2 c = Inr q2 \<and>
      submit q1 q2 func c =
        Inr (c\<lparr>task_queues := (task_queues c)[q2 := task_queues c ! q2 @ [func]]\<rparr>))"
  by (simp add: size_approx_def get_optimal_queue_second submit_enqueues)

theorem size_approx_zero_second_draw_wins_witness:
  "size_approx [1::nat, 2, 3] = 0 \<and>
   get_optimal_queue 0 1
     \<lparr>NUM_IO_THREADS = 2, task_queues = [[], [1::nat, 2, 3]], running = True\<rparr> = Inr 1 \<and>
   submit 0 1 4 \<lparr>NUM_IO_THREADS = 2, task_queues = [[], [1::nat, 2, 3]], running = True\<rparr> =
     Inr \<lparr>NUM_IO_THREADS = 2, task_queues = [[], [1, 2, 3, 4]], running = True\<rparr>"
  using size_approx_zero_second_draw_wins
    [of "[1::nat, 2, 3]" 0 "\<lparr>NUM_IO_THREADS = 2, task_queues = [[], [1::nat, 2, 3]], running = True\<rparr>" 1 4]
  by simp

text \<open>
  As claim C8 states it, a submission after shutdown is rejected with an error and the
  task is not enqueued. In the code, \<^verbatim>\<open>submit\<close> on a core whose running flag is
  false returns normally and the task is in the queue afterwards.
\<close>

theorem submit_after_shutdown_counterexample:
  "submit 0 0 (7::nat) (shutdown (QuantumIOCore_new 1)) =
     Inr \<lparr>NUM_IO_THREADS = 1, task_queues = [[7]], running = False\<rparr>"
  by (simp add: submit_def get_optimal_queue_def size_approx_def mpsc_push_def shutdown_def
      QuantumIOCore_new_def)

text \<open>
  Claim C8, amended. \<^verbatim>\<open>submit\<close> does not read the running flag. After shutdown
  (as before it), a submission whose two draws are queue indices returns without an
  error and appends the task to the queue of the second draw; the flag stays false.
\<close>

theorem submit_after_shutdown_enqueues:
  assumes "q1 < length (task_queues c)" "q2 < length (task_queues c)"
  shows "submit q1 q2 func (shutdown c) =
           Inr \<lparr>NUM_IO_THREADS = NUM_IO_THREADS c,
                task_queues = (task_queues c)[q2 := task_queues c ! q2 @ [func]],
                running = False\<rparr>"
  using assms submit_enqueues [of q1 "shutdown c" q2 func] by (simp add: shutdown_def)

theorem submit_after_shutdown_enqueues_witness:
  "(0::nat) < length (task_queues (QuantumIOCore_new 2 :: nat QuantumIOCore)) \<and>
   (1::nat) < length (task_queues (QuantumIOCore_new 2 :: nat QuantumIOCore)) \<and>
   submit 0 1 (7::nat) (shutdown (QuantumIOCore_new 2)) =
     Inr \<lparr>NUM_IO_THREADS = 2, task_queues = [[], [7]], running = False\<rparr>"
proof -
  have h: "(0::nat) < length (task_queues (QuantumIOCore_new 2 :: nat QuantumIOCore))"
    "(1::nat) < length (task_queues (QuantumIOCore_new 2 :: nat QuantumIOCore))"
    by (simp_all add: QuantumIOCore_new_def)
  have q: "task_queues (QuantumIOCore_new 2 :: nat QuantumIOCore) = [[], []]"
    "NUM_IO_THREADS (QuantumIOCore_new 2 :: nat QuantumIOCore) = 2"
    by (simp_all add: QuantumIOCore_new_def numeral_2_eq_2)
  from submit_after_shutdown_enqueues [OF h, of 7] h show ?thesis
    by (simp add: q)
qed

section \<open>Properties of the processing pipeline\<close>

lemma video_stage_0_new:
  "ConcurrentRingBuffer_new ([] :: uint8_t list) 5 =
     \<lparr>buffer = [[], [], [], [], []], head = 0, tail = 0, capacity = 5\<rparr>"
  by code_simp

lemma setup_video_pipeline_stages:
  "stages (setup_video_pipeline ProcessingPipeline_new) =
     [\<lparr>processor = analyze_video_frame,
       stage_buffer = \<lparr>buffer = [[], [], [], [], []], head = 0, tail = 0, capacity = 5\<rparr>\<rparr>,
      \<lparr>processor = adaptive_video_processing, stage_buffer = ConcurrentRingBuffer_new [] 3\<rparr>,
      \<lparr>processor = enhance_video_quality, stage_buffer = ConcurrentRingBuffer_new [] 2\<rparr>]"
  by (simp add: setup_video_pipeline_def add_stage_def ProcessingPipeline_new_def
      video_stage_0_new)

text \<open>
  Claim C1 on the code. The video pipeline's first stage has a buffer of capacity 5.
  After four frames that buffer is full: \<^verbatim>\<open>push\<close> of a fifth frame returns false.
  \<^verbatim>\<open>process\<close> on that fifth frame returns \<open>()\<close>, as it does on success, and
  leaves the pipeline as it was: the frame is discarded and the caller is not told.
\<close>

theorem process_discards_frame_when_stage_0_full:
  "\<exists>p. process_all [f1, f2, f3, f4] (setup_video_pipeline ProcessingPipeline_new) = Inr p \<and>
     rb_contents (stage_buffer (stages p ! 0)) = [f1, f2, f3, f4] \<and>
     rb_size (stage_buffer (stages p ! 0)) = Inr 4 \<and>
     rb_push f5 (stage_buffer (stages p ! 0)) = Inr (False, stage_buffer (stages p ! 0)) \<and>
     process f5 p = Inr ((), p)"
proof -
  let ?rest = "[\<lparr>processor = adaptive_video_processing, stage_buffer = ConcurrentRingBuffer_new [] 3\<rparr>,
      \<lparr>processor = enhance_video_quality, stage_buffer = ConcurrentRingBuffer_new [] 2\<rparr>]"
  let ?b = "\<lparr>buffer = [f1, f2, f3, f4, []], head = 0, tail = 4, capacity = 5\<rparr>"
  let ?p = "\<lparr>stages = \<lparr>processor = analyze_video_frame, stage_buffer = ?b\<rparr> # ?rest\<rparr>"
  have p0: "setup_video_pipeline ProcessingPipeline_new =
      \<lparr>stages = stages (setup_video_pipeline ProcessingPipeline_new)\<rparr>"
    by simp
  have run: "process_all [f1, f2, f3, f4] (setup_video_pipeline ProcessingPipeline_new) = Inr ?p"
    by (subst p0, unfold setup_video_pipeline_stages) (simp add: process_def rb_push_def)
  have cont: "rb_contents ?b = [f1, f2, f3, f4]"
    by (simp add: rb_contents_def rb_count_def upt_rec)
  have sz: "rb_size ?b = Inr 4" by (simp add: rb_size_def)
  have push: "rb_push f5 ?b = Inr (False, ?b)" by (simp add: rb_push_def)
  have "process f5 ?p = Inr ((), ?p)" by (simp add: process_def push)
  with run cont sz push show ?thesis by simp
qed

section \<open>Properties of the chunk tree\<close>

lemma insert_chunks_nodes:
  "\<exists>ns. nodes (insert_chunks cs t) = nodes t @ ns \<and> root_id (insert_chunks cs t) = root_id t"
proof (induction cs arbitrary: t)
  case Nil
  then show ?case by simp
next
  case (Cons c cs)
  obtain chunk_id ts sz deps where c: "c = (chunk_id, ts, sz, deps)" by (cases c)
  from Cons [of "insert_chunk chunk_id ts sz deps t"] show ?case
    by (auto simp: c insert_chunk_def)
qed

lemma dfs_from_childless_inner_root:
  assumes "ns \<noteq> []" "children (ns ! 0) = []" "\<not> is_leaf (ns ! 0)"
  shows "dfs ns [Visit 0] (replicate (length ns) False) [] = Inr []"
  using assms by simp

text \<open>
  What the traversal does on nodes that are linked: from the root it descends into the
  children first and emits the chunk ids of the leaves it meets, here 11 (reached through
  node 2) and 13. A child id that is not an index of \<^verbatim>\<open>nodes_\<close> is an access out of
  range.
\<close>

lemma dfs_linked_example:
  "dfs [\<lparr>node_chunk_id = 0, node_timestamp = 0, node_size = 0, children = [2, 3], is_leaf = False\<rparr>,
        \<lparr>node_chunk_id = 11, node_timestamp = 0, node_size = 5, children = [], is_leaf = True\<rparr>,
        \<lparr>node_chunk_id = 12, node_timestamp = 0, node_size = 5, children = [1], is_leaf = False\<rparr>,
        \<lparr>node_chunk_id = 13, node_timestamp = 0, node_size = 5, children = [], is_leaf = True\<rparr>]
       [Visit 0] [False, False, False, False] [] = Inr [11, 13]"
  by simp

lemma dfs_dangling_example:
  "dfs [\<lparr>node_chunk_id = 0, node_timestamp = 0, node_size = 0, children = [7], is_leaf = False\<rparr>]
       [Visit 0] [False] [] = Inl IndexOutOfRange"
  by simp

text \<open>
  Claim C2 on the code. \<^verbatim>\<open>insert_chunk\<close> appends a node and never adds it to the
  children of another node, so the root, where the traversal starts, has no children
  and is not a leaf. Whatever chunks were inserted, \<^verbatim>\<open>get_optimal_chunk_sequence\<close>
  visits the root only and returns the empty sequence. After inserting the single
  leaf chunk 1 (no dependencies), chunk 1 is not emitted.
\<close>

theorem get_optimal_chunk_sequence_is_empty:
  "get_optimal_chunk_sequence target_bitrate (insert_chunks cs ChunkQuadTree_new) = Inr [] \<and>
   is_leaf (nodes (insert_chunks [(1, 0, 10, [])] ChunkQuadTree_new) ! 1) \<and>
   node_chunk_id (nodes (insert_chunks [(1, 0, 10, [])] ChunkQuadTree_new) ! 1) = 1 \<and>
   get_optimal_chunk_sequence target_bitrate (insert_chunks [(1, 0, 10, [])] ChunkQuadTree_new) =
     Inr []"
proof -
  have empty: "get_optimal_chunk_sequence b (insert_chunks cs ChunkQuadTree_new) = Inr []" for b cs
  proof -
    from insert_chunks_nodes [of cs ChunkQuadTree_new] obtain ns
      where "nodes (insert_chunks cs ChunkQuadTree_new) = nodes ChunkQuadTree_new @ ns"
        and r: "root_id (insert_chunks cs ChunkQuadTree_new) = 0"
      by (auto simp: ChunkQuadTree_new_def)
    then have n: "nodes (insert_chunks cs ChunkQuadTree_new) \<noteq> []"
      "children (nodes (insert_chunks cs ChunkQuadTree_new) ! 0) = []"
      "\<not> is_leaf (nodes (insert_chunks cs ChunkQuadTree_new) ! 0)"
      by (simp_all add: ChunkQuadTree_new_def)
    show ?thesis
      unfolding get_optimal_chunk_sequence_def r by (rule dfs_from_childless_inner_root [OF n])
  qed
  have "is_leaf (nodes (insert_chunks [(1, 0, 10, [])] ChunkQuadTree_new) ! 1)"
    "node_chunk_id (nodes (insert_chunks [(1, 0, 10, [])] ChunkQuadTree_new) ! 1) = 1"
    by (simp_all add: insert_chunk_def ChunkQuadTree_new_def)
  with empty [of target_bitrate cs] empty [of target_bitrate "[(1, 0, 10, [])]"]
  show ?thesis by blast
qed

section \<open>Properties of packetization\<close>

lemma packet_count_iff:
  assumes "0 < cs"
  shows "l < packet_count cs S \<longleftrightarrow> l * cs < S"
proof -
  have "l < packet_count cs S \<longleftrightarrow> Suc l \<le> (S + cs - 1) div cs"
    by (simp add: packet_count_def Suc_le_eq)
  also have "\<dots> \<longleftrightarrow> Suc l * cs \<le> S + cs - 1"
    using assms by (simp only: less_eq_div_iff_mult_less_eq)
  also have "\<dots> \<longleftrightarrow> l * cs < S" using assms by auto
  finally show ?thesis .
qed

lemma generate_packets_loop_closed:
  assumes "0 < cs" "i = length packets * cs"
  shows "generate_packets_loop clock cs media sid i packets =
           Some (packets @ map (packet_at clock cs media sid)
                   [length packets ..< packet_count cs (length media)])"
  using assms(2)
proof (induction "length media - i" arbitrary: i packets rule: less_induct)
  case less
  let ?l = "length packets" and ?n = "packet_count cs (length media)"
  show ?case
  proof (cases "i < length media")
    case False
    then have "\<not> ?l < ?n" using less.prems assms(1) by (simp add: packet_count_iff)
    then have "[?l ..< ?n] = []" by simp
    with False assms(1) show ?thesis
      by (subst generate_packets_loop.simps) simp
  next
    case True
    then have ln: "?l < ?n" using less.prems assms(1) by (simp add: packet_count_iff)
    define pkt where "pkt =
      \<lparr>stream_id = sid, chunk_id = of_nat (i div cs), sequence_number = of_nat ?l,
       timestamp = clock ?l,
       data = take (min (i + cs) (length media) - i) (drop i media),
       priority = calculate_chunk_priority i (length media)\<rparr>"
    have "take (min (i + cs) (length media) - i) (drop i media) = take cs (drop i media)"
      by (simp add: min_def)
    moreover have "i div cs = ?l" using less.prems assms(1) by simp
    ultimately have pkt: "pkt = packet_at clock cs media sid ?l"
      by (simp add: pkt_def packet_at_def less.prems)
    have step: "generate_packets_loop clock cs media sid i packets =
        generate_packets_loop clock cs media sid (i + cs) (packets @ [pkt])"
      using True assms(1) by (subst generate_packets_loop.simps) (simp add: pkt_def Let_def)
    have "length media - (i + cs) < length media - i" using True assms(1) by simp
    moreover have "i + cs = length (packets @ [pkt]) * cs" using less.prems by simp
    ultimately have "generate_packets_loop clock cs media sid (i + cs) (packets @ [pkt]) =
        Some ((packets @ [pkt]) @ map (packet_at clock cs media sid)
                [length (packets @ [pkt]) ..< ?n])"
      by (rule less.hyps)
    moreover have "[?l ..< ?n] = ?l # [Suc ?l ..< ?n]" using ln by (simp add: upt_conv_Cons)
    ultimately show ?thesis using step pkt by simp
  qed
qed

lemma generate_packets_loop_from_start:
  assumes "0 < cs"
  shows "generate_packets_loop clock cs media sid 0 [] =
           Some (map (packet_at clock cs media sid) [0 ..< packet_count cs (length media)])"
  using generate_packets_loop_closed [OF assms, of 0 "[]" clock media sid] by simp

lemma concat_chunks:
  "concat (map (\<lambda>k. take cs (drop (k * cs) xs)) [0 ..< n]) = take (n * cs) xs"
proof (induction n)
  case 0
  then show ?case by simp
next
  case (Suc n)
  have "Suc n * cs = n * cs + cs" by simp
  then have "take (Suc n * cs) xs = take (n * cs) xs @ take cs (drop (n * cs) xs)"
    by (simp only: take_add)
  with Suc show ?case by simp
qed

lemma concat_packets:
  assumes "0 < cs"
  shows "concat (map data (map (packet_at clock cs media sid) [0 ..< packet_count cs (length media)]))
           = media"
proof -
  have "\<not> packet_count cs (length media) * cs < length media"
    using packet_count_iff [OF assms, of "packet_count cs (length media)" "length media"] by simp
  then have "take (packet_count cs (length media) * cs) media = media" by simp
  moreover have "map data (map (packet_at clock cs media sid) [0 ..< n]) =
      map (\<lambda>k. take cs (drop (k * cs) media)) [0 ..< n]" for n
    by (simp add: packet_at_def)
  ultimately show ?thesis by (simp only: concat_chunks)
qed

lemma packet_at_full:
  assumes "0 < cs" "Suc k < packet_count cs (length media)"
  shows "length (data (packet_at clock cs media sid k)) = cs"
proof -
  have "Suc k * cs < length media" using assms by (simp add: packet_count_iff)
  then show ?thesis by (simp add: packet_at_def)
qed

lemma packet_at_nonempty:
  assumes "0 < cs" "k < packet_count cs (length media)"
  shows "0 < length (data (packet_at clock cs media sid k))"
    "length (data (packet_at clock cs media sid k)) \<le> cs"
proof -
  have "k * cs < length media" using assms by (simp add: packet_count_iff)
  then show "0 < length (data (packet_at clock cs media sid k))"
    using assms(1) by (simp add: packet_at_def)
  show "length (data (packet_at clock cs media sid k)) \<le> cs" by (simp add: packet_at_def)
qed

lemma chunk_size_word_bounds:
  "1024 \<le> calculate_optimal_chunk_size oor p" "calculate_optimal_chunk_size oor p \<le> 65536"
  by (simp_all add: calculate_optimal_chunk_size_def Let_def)

lemma chunk_size_bounds:
  "1024 \<le> unat (calculate_optimal_chunk_size oor p)"
  "unat (calculate_optimal_chunk_size oor p) \<le> 65536"
  using chunk_size_word_bounds [of oor p] by (simp_all add: word_le_nat_alt)

lemma chunk_size_new:
  "calculate_optimal_chunk_size oor QuantumStreamProtocol_new = 1024"
  by (simp add: calculate_optimal_chunk_size_def QuantumStreamProtocol_new_def
      NetworkAwareScheduler_new_def double_to_size_t_def trunc_real_def)

lemma generate_packets_closed:
  "generate_packets oor clock p media sid =
     Some (map (packet_at clock (unat (calculate_optimal_chunk_size oor p)) media sid)
       [0 ..< packet_count (unat (calculate_optimal_chunk_size oor p)) (length media)])"
proof -
  have "0 < unat (calculate_optimal_chunk_size oor p)"
    using chunk_size_bounds(1) [of oor p] by simp
  then show ?thesis
    by (simp add: generate_packets_def generate_packets_loop_from_start)
qed

text \<open>
  Claim C4. For every payload and stream id, every scheduler state and every value a
  platform may deliver for an out-of-range conversion, \<^verbatim>\<open>generate_packets\<close> returns;
  the payloads of its packets, in order, make up the input, so their sizes sum to the
  input size; every packet except the last carries exactly the computed chunk size,
  the last one carries at least one byte and at most the chunk size; and the chunk
  size lies in \<open>[1024, 65536]\<close>.
\<close>

theorem generate_packets_partitions_payload:
  "\<exists>ps. generate_packets oor clock p media sid = Some ps \<and>
      concat (map data ps) = media \<and>
      sum_list (map (\<lambda>pk. length (data pk)) ps) = length media \<and>
      (\<forall>k. Suc k < length ps \<longrightarrow>
         length (data (ps ! k)) = unat (calculate_optimal_chunk_size oor p)) \<and>
      (ps \<noteq> [] \<longrightarrow> 0 < length (data (last ps)) \<and>
         length (data (last ps)) \<le> unat (calculate_optimal_chunk_size oor p)) \<and>
      1024 \<le> unat (calculate_optimal_chunk_size oor p) \<and>
      unat (calculate_optimal_chunk_size oor p) \<le> 65536"
proof -
  let ?cs = "unat (calculate_optimal_chunk_size oor p)"
  let ?n = "packet_count ?cs (length media)"
  let ?ps = "map (packet_at clock ?cs media sid) [0 ..< ?n]"
  have cs: "0 < ?cs" using chunk_size_bounds(1) [of oor p] by simp
  have gen: "generate_packets oor clock p media sid = Some ?ps"
    by (rule generate_packets_closed)
  have cat: "concat (map data ?ps) = media" using cs by (rule concat_packets)
  have "sum_list (map (\<lambda>pk. length (data pk)) ?ps) = length (concat (map data ?ps))"
    by (simp add: length_concat comp_def)
  then have total: "sum_list (map (\<lambda>pk. length (data pk)) ?ps) = length media"
    by (simp only: cat)
  have full: "\<forall>k. Suc k < length ?ps \<longrightarrow> length (data (?ps ! k)) = ?cs"
    using cs by (simp add: packet_at_full)
  have lst: "?ps \<noteq> [] \<longrightarrow> 0 < length (data (last ?ps)) \<and> length (data (last ?ps)) \<le> ?cs"
  proof
    assume ne: "?ps \<noteq> []"
    then have n: "0 < ?n" by simp
    then have "last ?ps = packet_at clock ?cs media sid (?n - 1)"
      by (simp add: last_map last_upt)
    moreover have "?n - 1 < ?n" using n by simp
    ultimately show "0 < length (data (last ?ps)) \<and> length (data (last ?ps)) \<le> ?cs"
      using packet_at_nonempty [OF cs, of "?n - 1" media clock sid] by simp
  qed
  from gen cat total full lst chunk_size_bounds [of oor p] show ?thesis by blast
qed

theorem generate_packets_partitions_payload_witness:
  "\<exists>ps. generate_packets (\<lambda>x. 0) (\<lambda>k. 0) QuantumStreamProtocol_new (replicate 2000 0) 7 = Some ps \<and>
      concat (map data ps) = replicate 2000 0 \<and>
      sum_list (map (\<lambda>pk. length (data pk)) ps) = 2000 \<and>
      length ps = 2 \<and>
      length (data (ps ! 0)) = 1024 \<and>
      length (data (last ps)) = 976 \<and>
      unat (calculate_optimal_chunk_size (\<lambda>x. 0) QuantumStreamProtocol_new) = 1024"
proof -
  let ?media = "replicate 2000 (0 :: uint8_t)"
  have cs: "unat (calculate_optimal_chunk_size (\<lambda>x. 0) QuantumStreamProtocol_new) = 1024"
    by (simp add: chunk_size_new)
  from generate_packets_partitions_payload [of "\<lambda>x. 0" "\<lambda>k. 0" QuantumStreamProtocol_new ?media 7]
  obtain ps where ps: "generate_packets (\<lambda>x. 0) (\<lambda>k. 0) QuantumStreamProtocol_new ?media 7 = Some ps"
    "concat (map data ps) = ?media"
    "sum_list (map (\<lambda>pk. length (data pk)) ps) = length ?media"
    "\<forall>k. Suc k < length ps \<longrightarrow>
       length (data (ps ! k)) = unat (calculate_optimal_chunk_size (\<lambda>x. 0) QuantumStreamProtocol_new)"
    by blast
  have n: "packet_count 1024 2000 = 2" by (simp add: packet_count_def)
  from ps(1) have eq: "ps = map (packet_at (\<lambda>k. 0) 1024 ?media 7) [0 ..< 2]"
    by (simp add: generate_packets_closed cs n)
  then have len: "length ps = 2" by simp
  with ps(4) have first: "length (data (ps ! 0)) = 1024" by (simp add: cs)
  have "last ps = packet_at (\<lambda>k. 0) 1024 ?media 7 1"
    unfolding eq by (simp add: upt_rec)
  then have lst: "length (data (last ps)) = 976" by (simp add: packet_at_def)
  from ps(1,2,3) len first lst cs show ?thesis by simp
qed




section \<open>Properties of the scheduler's bitrate and of the chunk size\<close>

lemma trunc_real_nonneg:
  assumes "- 1 < x"
  shows "0 \<le> trunc_real x"
proof (cases "0 \<le> x")
  case True
  then show ?thesis by (simp add: trunc_real_def)
next
  case False
  with assms have "\<lceil>x\<rceil> = 0" by (simp add: ceiling_eq_iff)
  with False show ?thesis by (simp add: trunc_real_def)
qed

lemma trunc_real_less:
  fixes n :: int
  assumes "x < of_int n" "0 < n"
  shows "trunc_real x < n"
proof (cases "0 \<le> x")
  case True
  with assms(1) show ?thesis by (simp add: trunc_real_def floor_less_iff)
next
  case False
  then have "\<lceil>x\<rceil> \<le> 0" by (simp add: ceiling_le_iff)
  moreover have "trunc_real x = \<lceil>x\<rceil>" using False by (simp add: trunc_real_def)
  ultimately show ?thesis using assms(2) by linarith
qed

text \<open>
  The clamp of \<^verbatim>\<open>calculate_optimal_bitrate\<close> works on the converted \<^verbatim>\<open>int\<close>, so
  the result is within \<open>[300, 20000]\<close> whatever the product is and whatever the
  conversion delivers. When the product is \<open>2^31\<close> or more, the result is the clamp
  of what the platform delivers for the conversion, not of the product; this is so in
  every state whose smoothed bandwidth is at least \<open>4 * 10^6\<close> Mbps, at any latency.
\<close>

lemma calculate_optimal_bitrate_range:
  "300 \<le> calculate_optimal_bitrate oor s" "calculate_optimal_bitrate oor s \<le> 20000"
  by (simp_all add: calculate_optimal_bitrate_def Let_def)

lemma calculate_optimal_bitrate_out_of_range:
  assumes "2 ^ 31 \<le> smoothed_bandwidth s * 1000 * max 0.7 (1 - smoothed_latency s / 100) * 0.8"
  shows "calculate_optimal_bitrate oor s =
           max 300 (min (sint (oor (smoothed_bandwidth s * 1000 *
             max 0.7 (1 - smoothed_latency s / 100) * 0.8))) 20000)"
  using assms by (simp add: calculate_optimal_bitrate_def double_to_int_def)

lemma product_out_of_range:
  assumes "4000000 \<le> smoothed_bandwidth s"
  shows "2 ^ 31 \<le> smoothed_bandwidth s * 1000 * max 0.7 (1 - smoothed_latency s / 100) * 0.8"
proof -
  let ?bw = "smoothed_bandwidth s" and ?f = "max 0.7 (1 - smoothed_latency s / 100)"
  have "?bw * 1000 * 0.7 \<le> ?bw * 1000 * ?f"
    using assms by (intro mult_left_mono) simp_all
  then have "?bw * 560 \<le> ?bw * 1000 * ?f * 0.8" by simp
  moreover have "(2 ^ 31 :: real) \<le> ?bw * 560" using assms by simp
  ultimately show ?thesis by linarith
qed

text \<open>
  The next lemma gives the chunk size in the exact arithmetic of the model; in binary64
  the quotient is rounded, so at a quotient next to an integer the code's chunk size
  can differ from this one by 1.
\<close>

lemma calculate_optimal_chunk_size_in_range:
  assumes "- 1 < smoothed_bandwidth (scheduler p) * 1000 *
             max 100 (min 2000 (smoothed_latency (scheduler p) * 2)) / 8000"
    and "smoothed_bandwidth (scheduler p) * 1000 *
             max 100 (min 2000 (smoothed_latency (scheduler p) * 2)) / 8000 < 2 ^ 64"
  shows "uint (calculate_optimal_chunk_size oor p) =
           max 1024 (min (trunc_real (smoothed_bandwidth (scheduler p) * 1000 *
             max 100 (min 2000 (smoothed_latency (scheduler p) * 2)) / 8000)) 65536)"
proof -
  let ?v = "smoothed_bandwidth (scheduler p) * 1000 *
             max 100 (min 2000 (smoothed_latency (scheduler p) * 2)) / 8000"
  have lo: "0 \<le> trunc_real ?v" using assms(1) by (rule trunc_real_nonneg)
  have "?v < of_int (2 ^ 64)" using assms(2) by simp
  then have "trunc_real ?v < 2 ^ 64" by (rule trunc_real_less) simp
  with lo have "uint (word_of_int (trunc_real ?v) :: size_t) = trunc_real ?v"
    by (simp add: uint_word_of_int take_bit_int_eq_self)
  moreover have "calculate_optimal_chunk_size oor p =
      max 1024 (min (word_of_int (trunc_real ?v)) 65536)"
    using assms by (simp add: calculate_optimal_chunk_size_def double_to_size_t_def)
  ultimately show ?thesis
    by (simp add: max_def min_def word_le_def)
qed

text \<open>An ordinary state: 1000 Mbps at 50 ms gives a chunk of 12500 bytes.\<close>

lemma calculate_optimal_chunk_size_example:
  "calculate_optimal_chunk_size oor
     \<lparr>chunk_tree = ChunkQuadTree_new,
      scheduler = NetworkAwareScheduler_new\<lparr>smoothed_bandwidth := 1000, smoothed_latency := 50\<rparr>\<rparr>
     = 12500"
  by (simp add: calculate_optimal_chunk_size_def double_to_size_t_def trunc_real_def)

lemma add_one_sample_new:
  "\<exists>s. add_metrics_samples [m] NetworkAwareScheduler_new = Inr s \<and>
     smoothed_bandwidth s = 0.2 * bandwidth m \<and> smoothed_latency s = 0.2 * latency m"
  by (simp add: add_metrics_sample_def rb_push_def update_metrics_def
      NetworkAwareScheduler_new_def ConcurrentRingBuffer_new_def)

text \<open>
  Claim C3 on the code. One recorded sample with a bandwidth of \<open>10^8\<close> Mbps and
  latency 0 leaves a smoothed bandwidth of \<open>2 * 10^7\<close> Mbps and a safety factor of 1.
  The claimed value is \<open>1.6 * 10^10\<close> clamped to \<open>[300, 20000]\<close>, that is 20000.
  The code converts \<open>1.6 * 10^10\<close> to \<^verbatim>\<open>int\<close> before it clamps. The value does not
  fit an \<^verbatim>\<open>int\<close>, so the function returns the clamp of whatever the conversion
  delivers: with the \<open>INT_MIN\<close> of x86-64 it returns 300, the lowest bitrate for the
  highest bandwidth.
\<close>

theorem calculate_optimal_bitrate_overflow:
  "\<exists>s. add_metrics_samples [NetworkMetrics_zero\<lparr>bandwidth := 100000000\<rparr>]
          NetworkAwareScheduler_new = Inr s \<and>
       smoothed_bandwidth s = 20000000 \<and> smoothed_latency s = 0 \<and>
       smoothed_bandwidth s * 1000 * max 0.7 (1 - smoothed_latency s / 100) * 0.8 = 16000000000 \<and>
       (2 ^ 31 :: real) \<le> 16000000000 \<and>
       calculate_optimal_bitrate oor s = max 300 (min (sint (oor 16000000000)) 20000) \<and>
       calculate_optimal_bitrate (\<lambda>x. 0x80000000) s = 300 \<and>
       spec_optimal_bitrate (smoothed_latency s) (smoothed_bandwidth s * 1000) = 20000"
proof -
  from add_one_sample_new [of "NetworkMetrics_zero\<lparr>bandwidth := 100000000\<rparr>"]
  obtain s where run: "add_metrics_samples [NetworkMetrics_zero\<lparr>bandwidth := 100000000\<rparr>]
      NetworkAwareScheduler_new = Inr s"
    and bw: "smoothed_bandwidth s = 20000000" and lat: "smoothed_latency s = 0"
    by (auto simp: NetworkMetrics_zero_def)
  have v: "smoothed_bandwidth s * 1000 * max 0.7 (1 - smoothed_latency s / 100) * 0.8 = 16000000000"
    by (simp add: bw lat)
  have big: "(2 ^ 31 :: real) \<le> 16000000000" by simp
  then have oor: "calculate_optimal_bitrate f s = max 300 (min (sint (f 16000000000)) 20000)" for f
    using calculate_optimal_bitrate_out_of_range [of s f] by (simp only: v)
  have "calculate_optimal_bitrate (\<lambda>x. 0x80000000) s = 300"
    by (simp add: oor)
  moreover have "spec_optimal_bitrate (smoothed_latency s) (smoothed_bandwidth s * 1000) = 20000"
    by (simp add: spec_optimal_bitrate_def clamp_def bw lat)
  ultimately show ?thesis using run bw lat v big oor [of oor] by blast
qed

text \<open>
  Claim C5 on the code. One recorded sample of 25 Mbps and 250 ms leaves a smoothed
  bandwidth of 5 Mbps (5000 kbps) and a smoothed latency of 50 ms, so the chunk
  duration is 100 ms. The claimed chunk size is \<open>5000 * 100 / 8 = 62500\<close> bytes. The
  code divides by 8000 instead, gets 62, and returns the lower bound 1024.
\<close>

theorem calculate_optimal_chunk_size_divides_by_8000:
  "\<exists>s. add_metrics_samples [NetworkMetrics_zero\<lparr>bandwidth := 25, latency := 250\<rparr>]
          NetworkAwareScheduler_new = Inr s \<and>
       smoothed_bandwidth s = 5 \<and> smoothed_latency s = 50 \<and>
       calculate_optimal_chunk_size oor \<lparr>chunk_tree = ChunkQuadTree_new, scheduler = s\<rparr> = 1024 \<and>
       spec_chunk_bytes (smoothed_latency s) (smoothed_bandwidth s * 1000) = 62500"
proof -
  from add_one_sample_new [of "NetworkMetrics_zero\<lparr>bandwidth := 25, latency := 250\<rparr>"]
  obtain s where run: "add_metrics_samples [NetworkMetrics_zero\<lparr>bandwidth := 25, latency := 250\<rparr>]
      NetworkAwareScheduler_new = Inr s"
    and bw: "smoothed_bandwidth s = 5" and lat: "smoothed_latency s = 50"
    by (auto simp: NetworkMetrics_zero_def)
  have "calculate_optimal_chunk_size oor \<lparr>chunk_tree = ChunkQuadTree_new, scheduler = s\<rparr> = 1024"
    by (simp add: calculate_optimal_chunk_size_def double_to_size_t_def trunc_real_def bw lat)
  moreover have "spec_chunk_bytes (smoothed_latency s) (smoothed_bandwidth s * 1000) = 62500"
    by (simp add: spec_chunk_bytes_def clamp_def bw lat)
  ultimately show ?thesis using run bw lat by blast
qed

end
